theory Spec2Isabelle
  imports Complex_Main "HOL-Library.Multiset" "HOL-Library.Log_Nat"
begin

section \<open>Data model of the dashboard\<close>

text \<open>
  The components receive plain JSON objects. A field that may be absent is an
  \<open>option\<close> (\<open>None\<close> is JavaScript's \<open>undefined\<close>). Numbers are reals, except in the
  volatility regime, which is decided at a threshold where rounding matters: there they
  are double-precision numbers. A date is
  the number of its calendar day, so that \<open>moment(a).diff(moment(b), 'days')\<close> is the
  difference of two day numbers.
\<close>

record impact_record =
  price_before :: "real option"
  price_after :: "real option"
  price_change :: "real option"
  percent_change :: "real option"
  volatility_before :: "real option"
  volatility_after :: "real option"

record event =
  date :: int
  name :: string
  type :: string
  region :: string
  impact :: "impact_record option"
  impact_direction :: "string option"

record change_point =
  date :: int
  probability :: real
  impact_pct :: "real option"

text \<open>The result of an arithmetic expression: a number or \<open>NaN\<close>.\<close>

datatype js_number = Num real | NaN

datatype js_error = TypeError

subsection \<open>JavaScript operators used by the components\<close>

definition diff_days :: "int \<Rightarrow> int \<Rightarrow> int" where
  \<comment> \<open>\<open>moment(a).diff(moment(b), 'days')\<close> on calendar days\<close>
  "diff_days a b = a - b"

definition or_default :: "real option \<Rightarrow> real \<Rightarrow> real" where
  \<comment> \<open>\<open>x || d\<close>: \<open>undefined\<close> and \<open>0\<close> are falsy\<close>
  "or_default x d = (case x of None \<Rightarrow> d | Some v \<Rightarrow> if v = 0 then d else v)"

definition js_minus :: "real option \<Rightarrow> real option \<Rightarrow> js_number" where
  \<comment> \<open>\<open>a - b\<close>: an \<open>undefined\<close> operand gives \<open>NaN\<close>\<close>
  "js_minus a b = (case (a, b) of (Some x, Some y) \<Rightarrow> Num (x - y) | _ \<Rightarrow> NaN)"

definition number_or :: "js_number \<Rightarrow> real \<Rightarrow> real" where
  \<comment> \<open>\<open>n || d\<close>: \<open>NaN\<close> and \<open>0\<close> are falsy\<close>
  "number_or n d = (case n of NaN \<Rightarrow> d | Num v \<Rightarrow> if v = 0 then d else v)"

definition chain :: "'a option \<Rightarrow> ('a \<Rightarrow> 'b option) \<Rightarrow> 'b option" where
  \<comment> \<open>\<open>obj?.field\<close>\<close>
  "chain obj field = (case obj of None \<Rightarrow> None | Some x \<Rightarrow> field x)"

section \<open>ImpactMetrics: the event impact table\<close>

definition within_tolerance :: "change_point \<Rightarrow> event \<Rightarrow> bool" where
  \<comment> \<open>\<open>cp => Math.abs(moment(cp.date).diff(moment(event.date), 'days')) <= 30\<close>\<close>
  "within_tolerance cp ev \<longleftrightarrow> \<bar>diff_days (change_point.date cp) (event.date ev)\<bar> \<le> 30"

definition associatedCP :: "change_point list \<Rightarrow> event \<Rightarrow> change_point option" where
  \<comment> \<open>\<open>changePoints.find(...)\<close>: the first element of the array that passes\<close>
  "associatedCP changePoints ev = List.find (\<lambda>cp. within_tolerance cp ev) changePoints"

record impact_row =
  row_event :: event
  changePointDetected :: bool
  changePointProbability :: "real option"
  impactMagnitude :: real
  impactAbs :: real
  volatilityChange :: real

definition impactRow :: "change_point list \<Rightarrow> event \<Rightarrow> impact_row" where
  \<comment> \<open>the function mapped over the events; \<open>row_event\<close> is the spread \<open>...event\<close>\<close>
  "impactRow changePoints ev =
    (let associated = associatedCP changePoints ev in
     \<lparr> row_event = ev,
       changePointDetected = (associated \<noteq> None),
       changePointProbability =
         (case associated of
            None \<Rightarrow> None
          | Some cp \<Rightarrow> if probability cp = 0 then None else Some (probability cp)),
       impactMagnitude = or_default (chain (impact ev) percent_change) 0,
       impactAbs = or_default (chain (impact ev) price_change) 0,
       volatilityChange =
         number_or (js_minus (chain (impact ev) volatility_after)
                             (chain (impact ev) volatility_before)) 0 \<rparr>)"

definition impactData :: "event list \<Rightarrow> change_point list \<Rightarrow> impact_row list" where
  \<comment> \<open>filter, map, then the stable sort by descending \<open>Math.abs(impactMagnitude)\<close>\<close>
  "impactData events changePoints =
     sort_key (\<lambda>r. - \<bar>impactMagnitude r\<bar>)
       (map (impactRow changePoints) (filter (\<lambda>ev. impact ev \<noteq> None) events))"

section \<open>EventTimeline: the change-point flag\<close>

definition hasChangePoint :: "change_point list option \<Rightarrow> event \<Rightarrow> bool option" where
  \<comment> \<open>\<open>changePoints?.some(...)\<close>; \<open>None\<close> is \<open>undefined\<close>\<close>
  "hasChangePoint changePoints ev =
     map_option (\<lambda>cps. list_ex (\<lambda>cp. within_tolerance cp ev) cps) changePoints"

subsection \<open>Rendering of a table row\<close>

text \<open>
  What the JSX of a row computes, cell by cell, before the numbers are formatted to digit
  strings (\<open>toFixed\<close> itself is not modelled, only whether its receiver is a number).
  Reading \<open>.toFixed\<close> off \<open>undefined\<close> throws a \<open>TypeError\<close>, which aborts the rendering.
\<close>

record row_view =
  price_amount :: real
  price_from :: "real option"
  price_to :: "real option"
  percent_shown :: real
  volatility_rising :: bool
  volatility_shown :: real
  change_point_badge :: "real option option"

definition toFixed :: "real option \<Rightarrow> js_error + real" where
  \<comment> \<open>\<open>x.toFixed(n)\<close>: the receiver must be a number\<close>
  "toFixed x = (case x of None \<Rightarrow> Inl TypeError | Some v \<Rightarrow> Inr v)"

definition chain_toFixed :: "'a option \<Rightarrow> ('a \<Rightarrow> real option) \<Rightarrow> js_error + real option" where
  \<comment> \<open>\<open>obj?.field.toFixed(2)\<close>: only a missing \<open>obj\<close> short-circuits to \<open>undefined\<close>\<close>
  "chain_toFixed obj field =
     (case obj of
        None \<Rightarrow> Inr None
      | Some x \<Rightarrow> (case toFixed (field x) of Inl e \<Rightarrow> Inl e | Inr v \<Rightarrow> Inr (Some v)))"

definition render_row :: "impact_row \<Rightarrow> js_error + row_view" where
  "render_row r =
     (case chain_toFixed (impact (row_event r)) price_before of
        Inl e \<Rightarrow> Inl e
      | Inr before \<Rightarrow>
          (case chain_toFixed (impact (row_event r)) price_after of
             Inl e \<Rightarrow> Inl e
           | Inr after \<Rightarrow>
               Inr \<lparr> price_amount = \<bar>or_default (chain (impact (row_event r)) price_change) 0\<bar>,
                     price_from = before,
                     price_to = after,
                     percent_shown = impactMagnitude r,
                     volatility_rising = (volatilityChange r > 0),
                     volatility_shown = \<bar>volatilityChange r\<bar> * 100,
                     change_point_badge =
                       (if changePointDetected r then Some (changePointProbability r)
                        else None) \<rparr>))"

fun render_rows :: "impact_row list \<Rightarrow> js_error + row_view list" where
  "render_rows [] = Inr []"
| "render_rows (r # rs) =
     (case render_row r of
        Inl e \<Rightarrow> Inl e
      | Inr v \<Rightarrow> (case render_rows rs of Inl e \<Rightarrow> Inl e | Inr vs \<Rightarrow> Inr (v # vs)))"

definition ImpactMetrics :: "event list \<Rightarrow> change_point list \<Rightarrow> js_error + row_view list" where
  "ImpactMetrics events changePoints = render_rows (impactData events changePoints)"

section \<open>ChangePointChart: the bar chart of change points\<close>

text \<open>
  The chart draws the component state \<open>chartData\<close>, initially empty; the effect replaces
  it only when the list it receives is present and not empty. The date strings of an entry
  are left out, and \<open>probabilityValue\<close> is the percentage before it is cut to one decimal.
\<close>

record chart_entry =
  entry_cp :: change_point
  probabilityValue :: real
  impactColor :: string
  index :: nat

definition chart_entry_of :: "nat \<times> change_point \<Rightarrow> chart_entry" where
  "chart_entry_of = (\<lambda>(i, cp).
     \<lparr> entry_cp = cp,
       probabilityValue = probability cp * 100,
       impactColor = (case impact_pct cp of
                        Some v \<Rightarrow> if v > 0 then ''#28a745'' else ''#dc3545''
                      | None \<Rightarrow> ''#dc3545''),
       index = i + 1 \<rparr>)"

definition sorted_top :: "change_point list \<Rightarrow> chart_entry list" where
  \<comment> \<open>\<open>[...changePoints].sort((a, b) => b.probability - a.probability).slice(0, 10).map(...)\<close>\<close>
  "sorted_top changePoints =
     map chart_entry_of (enumerate 0 (take 10 (sort_key (\<lambda>cp. - probability cp) changePoints)))"

definition chartData_initial :: "chart_entry list" where
  "chartData_initial = []"

definition chartData_effect :: "change_point list option \<Rightarrow> chart_entry list \<Rightarrow> chart_entry list" where
  "chartData_effect changePoints chartData =
     (case changePoints of
        None \<Rightarrow> chartData
      | Some cps \<Rightarrow> if length cps > 0 then sorted_top cps else chartData)"

section \<open>The API client and the dashboard's filter state\<close>

record change_points_request =
  min_probability :: real

definition getChangePoints :: "real option \<Rightarrow> change_points_request" where
  \<comment> \<open>\<open>(minProbability = 0.8) => api.get('/change-points', { params: { min_probability } })\<close>\<close>
  "getChangePoints minProbability =
     \<lparr> min_probability = (case minProbability of None \<Rightarrow> 0.8 | Some p \<Rightarrow> p) \<rparr>"

definition minProbability_initial :: real where
  \<comment> \<open>\<open>useState(0.8)\<close> in the dashboard\<close>
  "minProbability_initial = 0.8"

text \<open>
  Modelled from the spec: the server behind \<open>/change-points\<close> is not among the sources.
  The spec's retention policy keeps the change points whose probability exceeds the
  threshold.
\<close>

definition change_points_endpoint :: "change_point list \<Rightarrow> change_points_request \<Rightarrow> change_point list" where
  "change_points_endpoint detected req =
     filter (\<lambda>cp. probability cp > min_probability req) detected"

section \<open>Double-precision arithmetic\<close>

text \<open>
  A finite JavaScript number is \<open>mant * 2 ^ expo\<close>. Multiplication and division give the
  exact result rounded to the nearest number with a 53-bit mantissa, ties to the even
  mantissa; a decimal literal or JSON number \<open>p / q\<close> denotes the nearest such number (so
  \<open>1.2\<close> is \<open>5404319552844595 * 2 ^ -52\<close>, hexadecimal \<open>0x1.3333333333333p+0\<close>). The
  exponent is not bounded: overflow to \<open>Infinity\<close>, subnormal numbers and \<open>NaN\<close> are
  outside the model.
\<close>

record double =
  mant :: int
  expo :: int


definition nearest_even :: "int \<Rightarrow> int \<Rightarrow> int" where
  \<comment> \<open>\<open>num / den\<close> rounded to the nearest integer, ties to even\<close>
  "nearest_even num den =
     (let n = num div den; r = num mod den
      in if 2 * r > den \<or> (2 * r = den \<and> odd n) then n + 1 else n)"

definition scaled :: "int \<Rightarrow> int \<Rightarrow> int \<Rightarrow> int \<times> int" where
  \<comment> \<open>numerator and denominator of \<open>(p / q) / 2 ^ k\<close>\<close>
  "scaled p q k = (if 0 \<le> k then (p, q * 2 ^ nat k) else (p * 2 ^ nat (- k), q))"

definition round_pos :: "int \<Rightarrow> int \<Rightarrow> int \<Rightarrow> double" where
  \<comment> \<open>the double nearest to \<open>(p / q) * 2 ^ e\<close>, for positive \<open>p\<close> and \<open>q\<close>: the exponent
      \<open>k\<close> is chosen such that \<open>(p / q) / 2 ^ k\<close> has 53 bits before the point\<close>
  "round_pos p q e =
     (let k0 = bitlen p - bitlen q - 53;
          k = (if 2 ^ 53 \<le> fst (scaled p q k0) div snd (scaled p q k0) then k0 + 1 else k0)
      in \<lparr> mant = nearest_even (fst (scaled p q k)) (snd (scaled p q k)), expo = k + e \<rparr>)"

definition round_double :: "int \<Rightarrow> int \<Rightarrow> int \<Rightarrow> double" where
  \<comment> \<open>the double nearest to \<open>(p / q) * 2 ^ e\<close>, for positive \<open>q\<close>\<close>
  "round_double p q e =
     (if p = 0 then \<lparr> mant = 0, expo = 0 \<rparr>
      else if 0 < p then round_pos p q e
      else (let d = round_pos (- p) q e in \<lparr> mant = - mant d, expo = expo d \<rparr>))"

definition decimal :: "int \<Rightarrow> int \<Rightarrow> double" where
  \<comment> \<open>the number a decimal literal \<open>p / q\<close> denotes\<close>
  "decimal p q = round_double p q 0"

definition fmul :: "double \<Rightarrow> double \<Rightarrow> double" where
  \<comment> \<open>\<open>a * b\<close>\<close>
  "fmul a b = round_double (mant a * mant b) 1 (expo a + expo b)"


definition less_double :: "double \<Rightarrow> double \<Rightarrow> bool" where
  \<comment> \<open>\<open>a < b\<close>, on the mantissas brought to the smaller exponent\<close>
  "less_double a b =
     (let e = min (expo a) (expo b)
      in mant a * 2 ^ nat (expo a - e) < mant b * 2 ^ nat (expo b - e))"

section \<open>VolatilityChart: the volatility regime\<close>

datatype regime = High | Low | Normal

definition regime_label :: "double \<Rightarrow> double \<Rightarrow> regime" where
  \<comment> \<open>\<open>current > avg * 1.2 ? 'High' : current < avg * 0.8 ? 'Low' : 'Normal'\<close>\<close>
  "regime_label current avg =
     (if less_double (fmul avg (decimal 12 10)) current then High
      else if less_double current (fmul avg (decimal 8 10)) then Low else Normal)"




section \<open>Series Preprocessor\<close>

text \<open>
  Modelled from the spec: the preprocessor is not among the sources. Its observations are
  the spec's \<open>PriceObservation\<close> and \<open>ReturnObservation\<close>, its failure the spec's
  \<open>DataError\<close>.
\<close>

record price_observation =
  date :: int
  price :: real

record return_observation =
  date :: int
  log_return :: real

datatype pipeline_error = DataError

text \<open>
  Modelled from the spec: a series is valid when it has at least 2 observations, strictly
  increasing dates and positive prices.
\<close>

definition valid_series :: "price_observation list \<Rightarrow> bool" where
  "valid_series ps \<longleftrightarrow>
     2 \<le> length ps \<and> sorted_wrt (<) (map price_observation.date ps) \<and>
     list_all (\<lambda>p. 0 < price p) ps"

text \<open>
  Modelled from the spec: one return per price but the first,
  \<open>log_return = ln(price_t / price_{t-1})\<close>, dated as the later price.
\<close>

fun log_returns :: "price_observation list \<Rightarrow> return_observation list" where
  "log_returns (p # q # rest) =
     \<lparr> return_observation.date = price_observation.date q,
       log_return = ln (price q / price p) \<rparr> # log_returns (q # rest)"
| "log_returns _ = []"

text \<open>
  Modelled from the spec: the preprocessor fails with \<open>DataError\<close> on an invalid series
  and otherwise produces the return sequence.
\<close>

definition preprocess :: "price_observation list \<Rightarrow> pipeline_error + return_observation list" where
  "preprocess ps = (if valid_series ps then Inr (log_returns ps) else Inl DataError)"

section \<open>Posterior Summarizer\<close>

text \<open>
  Modelled from the spec: the summarizer is not among the sources. A candidate is an index
  of the posterior vector with its probability; the candidates are the indices whose
  probability exceeds the threshold.
\<close>

definition candidates :: "real \<Rightarrow> real list \<Rightarrow> (nat \<times> real) list" where
  "candidates threshold posterior =
     filter (\<lambda>(i, p). threshold < p) (enumerate 0 posterior)"

text \<open>
  Modelled from the spec: two candidates respect the minimum-separation window when their
  indices differ by at least the separation.
\<close>

definition apart :: "nat \<Rightarrow> nat \<times> real \<Rightarrow> nat \<times> real \<Rightarrow> bool" where
  "apart sep a b \<longleftrightarrow> sep \<le> (if fst a \<le> fst b then fst b - fst a else fst a - fst b)"

text \<open>
  Modelled from the spec: non-maximum suppression with a minimum-separation window. The
  candidates are visited from the most probable down (the earlier index first among equal
  probabilities); one is kept when it lies at least the separation away from every
  candidate kept so far, and discarded otherwise.
\<close>

fun suppress :: "nat \<Rightarrow> (nat \<times> real) list \<Rightarrow> (nat \<times> real) list \<Rightarrow> (nat \<times> real) list" where
  "suppress sep kept [] = kept"
| "suppress sep kept (c # cs) =
     (if list_all (\<lambda>k. apart sep k c) kept then suppress sep (kept @ [c]) cs
      else suppress sep kept cs)"

text \<open>
  Modelled from the spec: the suppression starts from the candidates in order of descending
  probability and emits the kept ones in chronological order.
\<close>

definition nms :: "nat \<Rightarrow> (nat \<times> real) list \<Rightarrow> (nat \<times> real) list" where
  "nms sep cs = sort_key fst (suppress sep [] (sort_key (\<lambda>c. - snd c) cs))"

text \<open>
  Modelled from the spec: the summarizer thresholds the posterior vector and suppresses the
  non-maxima (the spec's defaults are a threshold of 0.5 and a separation of 5).
\<close>

definition summarize :: "real \<Rightarrow> nat \<Rightarrow> real list \<Rightarrow> (nat \<times> real) list" where
  "summarize threshold sep posterior = nms sep (candidates threshold posterior)"

text \<open>
  Modelled from the spec: the emitted change points read back as a per-index probability
  vector of the given length, 0 where no change point was emitted.
\<close>

definition as_posterior :: "nat \<Rightarrow> (nat \<times> real) list \<Rightarrow> real list" where
  "as_posterior n cps = map (\<lambda>i. case map_of cps i of Some p \<Rightarrow> p | None \<Rightarrow> 0) [0..<n]"

section \<open>Concrete inputs\<close>

definition event_on :: "int \<Rightarrow> impact_record option \<Rightarrow> event" where
  "event_on d i =
     \<lparr> event.date = d, name = ''OPEC meeting'', type = ''Policy Decision'',
       region = ''Global'', impact = i, impact_direction = None \<rparr>"

definition change_point_on :: "int \<Rightarrow> real \<Rightarrow> change_point" where
  "change_point_on d p = \<lparr> change_point.date = d, probability = p, impact_pct = None \<rparr>"

definition impact_of :: "real option \<Rightarrow> real option \<Rightarrow> real option \<Rightarrow> impact_record" where
  "impact_of pct vb va =
     \<lparr> price_before = Some 50, price_after = Some 60, price_change = Some 10,
       percent_change = pct, volatility_before = vb, volatility_after = va \<rparr>"

section \<open>Properties of the correlation\<close>

lemma associatedCP_Some_iff:
  "associatedCP cps ev = Some cp \<longleftrightarrow>
     (\<exists>pre post. cps = pre @ cp # post \<and> within_tolerance cp ev \<and>
        (\<forall>c \<in> set pre. \<not> within_tolerance c ev))"
proof
  assume "associatedCP cps ev = Some cp"
  then obtain i where i: "i < length cps" "within_tolerance (cps ! i) ev" "cp = cps ! i"
    "\<forall>j<i. \<not> within_tolerance (cps ! j) ev"
    unfolding associatedCP_def find_Some_iff by blast
  have "cps = take i cps @ cp # drop (Suc i) cps"
    using i(1,3) by (simp add: id_take_nth_drop)
  moreover have "\<forall>c \<in> set (take i cps). \<not> within_tolerance c ev"
    using i(1,4) by (auto simp: in_set_conv_nth)
  ultimately show "\<exists>pre post. cps = pre @ cp # post \<and> within_tolerance cp ev \<and>
        (\<forall>c \<in> set pre. \<not> within_tolerance c ev)"
    using i(2,3) by blast
next
  assume "\<exists>pre post. cps = pre @ cp # post \<and> within_tolerance cp ev \<and>
        (\<forall>c \<in> set pre. \<not> within_tolerance c ev)"
  then obtain pre post where h: "cps = pre @ cp # post" "within_tolerance cp ev"
    "\<forall>c \<in> set pre. \<not> within_tolerance c ev" by blast
  have "List.find (\<lambda>c. within_tolerance c ev) (pre @ cp # post) = Some cp"
    using h(2,3) by (induction pre) auto
  then show "associatedCP cps ev = Some cp"
    by (simp add: associatedCP_def h(1))
qed

lemma associatedCP_None_iff:
  "associatedCP cps ev = None \<longleftrightarrow> (\<forall>cp \<in> set cps. \<not> within_tolerance cp ev)"
  by (auto simp: associatedCP_def find_None_iff)

text \<open>
  C1, as the code has it: when some change point lies within the 30-day window of the
  event, the event is associated with the first change point of the list that lies within
  the window, whatever its distance. In a chronologically ordered list this is the
  earliest change point of the window, so of two change points of the window at the same
  distance the later one is never chosen.
\<close>

theorem associatedCP_first_within_tolerance:
  assumes "\<exists>cp \<in> set cps. within_tolerance cp ev"
  shows "\<exists>pre cp post. cps = pre @ cp # post \<and> associatedCP cps ev = Some cp \<and>
           within_tolerance cp ev \<and> (\<forall>c \<in> set pre. \<not> within_tolerance c ev) \<and>
           (sorted (map change_point.date cps) \<longrightarrow>
              (\<forall>c \<in> set cps. within_tolerance c ev \<longrightarrow>
                 change_point.date cp \<le> change_point.date c))"
proof -
  from assms obtain cp where a: "associatedCP cps ev = Some cp"
    using associatedCP_None_iff [of cps ev] by (cases "associatedCP cps ev") auto
  then obtain pre post where h: "cps = pre @ cp # post" "within_tolerance cp ev"
    "\<forall>c \<in> set pre. \<not> within_tolerance c ev"
    using associatedCP_Some_iff [of cps ev cp] by blast
  have "change_point.date cp \<le> change_point.date c"
    if s: "sorted (map change_point.date cps)" and c: "c \<in> set cps" "within_tolerance c ev" for c
  proof -
    from c h(1,3) have "c = cp \<or> c \<in> set post" by auto
    moreover from s h(1) have "\<forall>x \<in> set post. change_point.date cp \<le> change_point.date x"
      by (simp add: sorted_append)
    ultimately show ?thesis by auto
  qed
  with a h show ?thesis by blast
qed

theorem associatedCP_first_within_tolerance_witness:
  "associatedCP [change_point_on (-40) 0.9, change_point_on (-10) 0.9, change_point_on 10 0.8]
     (event_on 0 None) = Some (change_point_on (-10) 0.9)"
proof -
  let ?cps = "[change_point_on (-40) 0.9, change_point_on (-10) 0.9, change_point_on 10 0.8]"
  have "\<exists>cp \<in> set ?cps. within_tolerance cp (event_on 0 None)"
    by (simp add: within_tolerance_def diff_days_def change_point_on_def event_on_def)
  from associatedCP_first_within_tolerance [OF this]
  obtain pre cp post where h: "?cps = pre @ cp # post"
    "associatedCP ?cps (event_on 0 None) = Some cp"
    "within_tolerance cp (event_on 0 None)"
    "\<forall>c \<in> set pre. \<not> within_tolerance c (event_on 0 None)"
    "sorted (map change_point.date ?cps) \<longrightarrow>
       (\<forall>c \<in> set ?cps. within_tolerance c (event_on 0 None) \<longrightarrow>
          change_point.date cp \<le> change_point.date c)"
    by blast
  have s: "sorted (map change_point.date ?cps)"
    by (simp add: change_point_on_def)
  have w: "within_tolerance (change_point_on (-10) 0.9) (event_on 0 None)"
    by (simp add: within_tolerance_def diff_days_def change_point_on_def event_on_def)
  have n: "\<not> within_tolerance (change_point_on (-40) 0.9) (event_on 0 None)"
    by (simp add: within_tolerance_def diff_days_def change_point_on_def event_on_def)
  from h(5) s w have le: "change_point.date cp \<le> - 10"
    by (simp add: change_point_on_def)
  from h(1) have "cp \<in> set ?cps" by (metis in_set_conv_decomp)
  with le h(3) n have "cp = change_point_on (-10) 0.9"
    by (auto simp: change_point_on_def)
  with h(2) show ?thesis by simp
qed

text \<open>
  C1 as stated fails: with change points 20 days before and 1 day after the event, in
  chronological order, the event is associated with the one 20 days before, which is not
  the nearest.
\<close>

theorem associatedCP_nearest_counterexample:
  "associatedCP [change_point_on (-20) 0.9, change_point_on 1 0.9] (event_on 0 None)
     = Some (change_point_on (-20) 0.9)
   \<and> within_tolerance (change_point_on 1 0.9) (event_on 0 None)
   \<and> \<bar>diff_days (change_point.date (change_point_on 1 0.9)) (event.date (event_on 0 None))\<bar>
       < \<bar>diff_days (change_point.date (change_point_on (-20) 0.9)) (event.date (event_on 0 None))\<bar>"
  by (simp add: associatedCP_def within_tolerance_def diff_days_def change_point_on_def
      event_on_def)

text \<open>
  C3: the tolerance boundary is inclusive. An event exactly 30 days from some change point
  is matched, in the impact table and on the timeline; an event farther than 30 days from
  every change point is not matched and carries no change-point probability.
\<close>

theorem tolerance_boundary_inclusive:
  "((\<exists>cp \<in> set cps. \<bar>diff_days (change_point.date cp) (event.date ev)\<bar> = 30) \<longrightarrow>
      changePointDetected (impactRow cps ev) \<and> hasChangePoint (Some cps) ev = Some True)
   \<and> ((\<forall>cp \<in> set cps. \<bar>diff_days (change_point.date cp) (event.date ev)\<bar> > 30) \<longrightarrow>
      \<not> changePointDetected (impactRow cps ev)
      \<and> changePointProbability (impactRow cps ev) = None
      \<and> hasChangePoint (Some cps) ev = Some False)"
proof (intro conjI impI)
  assume "\<exists>cp \<in> set cps. \<bar>diff_days (change_point.date cp) (event.date ev)\<bar> = 30"
  then have ex: "\<exists>cp \<in> set cps. within_tolerance cp ev"
    unfolding within_tolerance_def by force
  then have "associatedCP cps ev \<noteq> None"
    by (simp add: associatedCP_None_iff)
  then show "changePointDetected (impactRow cps ev)"
    by (simp add: impactRow_def Let_def)
  from ex show "hasChangePoint (Some cps) ev = Some True"
    by (simp add: hasChangePoint_def list_ex_iff)
next
  assume far: "\<forall>cp \<in> set cps. \<bar>diff_days (change_point.date cp) (event.date ev)\<bar> > 30"
  then have no: "\<forall>cp \<in> set cps. \<not> within_tolerance cp ev"
    by (auto simp: within_tolerance_def)
  then have none: "associatedCP cps ev = None"
    by (simp add: associatedCP_None_iff)
  then show "\<not> changePointDetected (impactRow cps ev)"
    by (simp add: impactRow_def Let_def)
  from none show "changePointProbability (impactRow cps ev) = None"
    by (simp add: impactRow_def Let_def)
  from no show "hasChangePoint (Some cps) ev = Some False"
    by (simp add: hasChangePoint_def list_ex_iff)
qed

theorem tolerance_boundary_inclusive_witness:
  "changePointDetected (impactRow [change_point_on 30 0.9] (event_on 0 None))
   \<and> hasChangePoint (Some [change_point_on 30 0.9]) (event_on 0 None) = Some True
   \<and> \<not> changePointDetected (impactRow [change_point_on 31 0.9] (event_on 0 None))
   \<and> changePointProbability (impactRow [change_point_on 31 0.9] (event_on 0 None)) = None
   \<and> hasChangePoint (Some [change_point_on 31 0.9]) (event_on 0 None) = Some False"
  using tolerance_boundary_inclusive [of "[change_point_on 30 0.9]" "event_on 0 None"]
    tolerance_boundary_inclusive [of "[change_point_on 31 0.9]" "event_on 0 None"]
  by (simp add: diff_days_def change_point_on_def event_on_def)

text \<open>
  C4: an event is associated with at most one change point, and the table has one row per
  event with an impact record, however many change points lie in its window; one change
  point may be the associated change point of several events.
\<close>

theorem one_change_point_per_event:
  "card {cp. associatedCP cps ev = Some cp} \<le> 1
   \<and> length (impactData events cps) = length (filter (\<lambda>e. impact e \<noteq> None) events)
   \<and> (\<exists>cps' e1 e2 cp. event.date e1 \<noteq> event.date e2
         \<and> associatedCP cps' e1 = Some cp \<and> associatedCP cps' e2 = Some cp)"
proof (intro conjI)
  show "card {cp. associatedCP cps ev = Some cp} \<le> 1"
  proof (cases "associatedCP cps ev")
    case None
    then show ?thesis by simp
  next
    case (Some c)
    then have "{cp. associatedCP cps ev = Some cp} = {c}" by auto
    then show ?thesis by simp
  qed
  show "length (impactData events cps) = length (filter (\<lambda>e. impact e \<noteq> None) events)"
    by (simp add: impactData_def)
  have "event.date (event_on 0 None) \<noteq> event.date (event_on 5 None)
      \<and> associatedCP [change_point_on 2 0.9] (event_on 0 None) = Some (change_point_on 2 0.9)
      \<and> associatedCP [change_point_on 2 0.9] (event_on 5 None) = Some (change_point_on 2 0.9)"
    by (simp add: associatedCP_def within_tolerance_def diff_days_def change_point_on_def
        event_on_def)
  then show "\<exists>cps' e1 e2 cp. event.date e1 \<noteq> event.date e2
         \<and> associatedCP cps' e1 = Some cp \<and> associatedCP cps' e2 = Some cp"
    by blast
qed

section \<open>Properties of the impact table\<close>

text \<open>
  C8: the rows of the impact table are exactly the events that carry an impact record,
  each once, ordered by non-increasing absolute percent change (a missing percent change
  counts as 0).
\<close>

theorem impactData_rows_sorted:
  "mset (map row_event (impactData events cps)) = mset (filter (\<lambda>e. impact e \<noteq> None) events)
   \<and> sorted_wrt (\<lambda>a b. \<bar>impactMagnitude a\<bar> \<ge> \<bar>impactMagnitude b\<bar>) (impactData events cps)
   \<and> (\<forall>r \<in> set (impactData events cps).
         impactMagnitude r = or_default (chain (impact (row_event r)) percent_change) 0)"
proof (intro conjI)
  have "map row_event (map (impactRow cps) xs) = xs" for xs
    by (induction xs) (simp_all add: impactRow_def Let_def)
  then have "mset (map row_event (map (impactRow cps) xs)) = mset xs" for xs
    by simp
  then show "mset (map row_event (impactData events cps))
      = mset (filter (\<lambda>e. impact e \<noteq> None) events)"
    unfolding impactData_def by (metis mset_map mset_sort)
  have "sorted (map (\<lambda>r. - \<bar>impactMagnitude r\<bar>) (impactData events cps))"
    unfolding impactData_def by (rule sorted_sort_key)
  then show "sorted_wrt (\<lambda>a b. \<bar>impactMagnitude a\<bar> \<ge> \<bar>impactMagnitude b\<bar>)
      (impactData events cps)"
    by (simp add: sorted_map)
  show "\<forall>r \<in> set (impactData events cps).
         impactMagnitude r = or_default (chain (impact (row_event r)) percent_change) 0"
    by (auto simp: impactData_def impactRow_def Let_def)
qed

theorem impactData_rows_sorted_witness:
  "map (\<lambda>r. (event.date (row_event r), impactMagnitude r))
     (impactData [event_on 1 (Some (impact_of (Some 5) None None)), event_on 2 None,
                  event_on 3 (Some (impact_of (Some (-20)) None None)),
                  event_on 4 (Some (impact_of None None None))] [])
   = [(3, -20), (1, 5), (4, 0)]"
  using impactData_rows_sorted [of "[event_on 1 (Some (impact_of (Some 5) None None)), event_on 2 None,
                  event_on 3 (Some (impact_of (Some (-20)) None None)),
                  event_on 4 (Some (impact_of None None None))]" "[]"]
  by (simp add: impactData_def impactRow_def Let_def event_on_def impact_of_def or_default_def
      chain_def)

section \<open>Rendering of the impact table\<close>

lemma volatilityChange_value:
  "volatilityChange (impactRow cps ev) =
     (case chain (impact ev) volatility_after of
        None \<Rightarrow> 0
      | Some a \<Rightarrow> (case chain (impact ev) volatility_before of None \<Rightarrow> 0 | Some b \<Rightarrow> a - b))"
  by (simp add: impactRow_def Let_def js_minus_def number_or_def split: option.splits)

lemma render_row_total:
  assumes "impact (row_event r) = Some i" "price_before i \<noteq> None" "price_after i \<noteq> None"
  shows "\<exists>v. render_row r = Inr v \<and> volatility_shown v = \<bar>volatilityChange r\<bar> * 100"
  using assms by (auto simp: render_row_def chain_toFixed_def toFixed_def)

text \<open>
  C10: the volatility change of a row is \<open>volatility_after - volatility_before\<close>, and 0
  when either field is missing (\<open>volatilityChange_value\<close>), and a row whose impact record has
  both prices renders (\<open>render_row_total\<close>). The rendering is not total over partial impact
  records, though: for an event whose impact record has a percent change and a volatility
  but no \<open>price_before\<close>, the volatility change is 0 and rendering the table throws a
  \<open>TypeError\<close>.
\<close>

theorem ImpactMetrics_partial_impact_TypeError:
  "volatilityChange (impactRow [] (event_on 0 (Some \<lparr> price_before = None, price_after = None,
       price_change = None, percent_change = Some 5, volatility_before = None,
       volatility_after = Some 0.3 \<rparr>))) = 0
   \<and> ImpactMetrics [event_on 0 (Some \<lparr> price_before = None, price_after = None,
       price_change = None, percent_change = Some 5, volatility_before = None,
       volatility_after = Some 0.3 \<rparr>)] [] = Inl TypeError"
  by (simp add: ImpactMetrics_def impactData_def impactRow_def Let_def render_row_def
      chain_toFixed_def toFixed_def event_on_def chain_def js_minus_def number_or_def)

section \<open>The default probability threshold\<close>

text \<open>
  C5, as the code has it: without a threshold from the caller the change points are
  requested with \<open>min_probability = 0.8\<close>, which is also the dashboard's initial value; a
  threshold from the caller is passed on as it is; the change points kept are those whose
  probability exceeds the threshold.
\<close>

theorem getChangePoints_default:
  "min_probability (getChangePoints None) = 0.8
   \<and> minProbability_initial = 0.8
   \<and> min_probability (getChangePoints (Some p)) = p
   \<and> set (change_points_endpoint detected (getChangePoints None))
       = {cp \<in> set detected. probability cp > 0.8}"
  by (auto simp: getChangePoints_def minProbability_initial_def change_points_endpoint_def)

text \<open>
  C5 as stated fails: the default threshold is not 0.5, and a change point of probability
  0.7 is not kept when no threshold is given.
\<close>

theorem getChangePoints_default_counterexample:
  "min_probability (getChangePoints None) \<noteq> 0.5
   \<and> change_points_endpoint [change_point_on 0 0.7] (getChangePoints None) = []"
  by (simp add: getChangePoints_def change_points_endpoint_def change_point_on_def)

section \<open>Volatility regime\<close>

subsection \<open>Rounding error of double-precision arithmetic\<close>

text \<open>
  The rounded mantissa has 53 bits (\<open>round_pos_mantissa\<close>), the rounded number differs
  from the exact one by at most the fraction \<open>2 ^ -53\<close> of it (\<open>round_double_error\<close>), and
  the comparison of two doubles is the comparison of the numbers they stand for
  (\<open>less_double_iff\<close>).
\<close>

lemma two_powr_int: "(2::real) powr real_of_int k = (if 0 \<le> k then 2 ^ nat k else 1 / 2 ^ nat (- k))"
  by (simp add: powr_int)


lemma scaled_ratio:
  assumes "0 < q"
  shows "0 < snd (scaled p q k)"
    and "real_of_int (fst (scaled p q k)) / real_of_int (snd (scaled p q k))
           = real_of_int p / (real_of_int q * 2 powr real_of_int k)"
  using assms by (simp_all add: scaled_def two_powr_int)



lemma int_div_bounds:
  fixes den :: int
  assumes "0 < den"
  shows "lo * den \<le> num \<Longrightarrow> lo \<le> num div den"
    and "num < hi * den \<Longrightarrow> num div den < hi"
proof -
  show "lo * den \<le> num \<Longrightarrow> lo \<le> num div den"
    using assms zdiv_mono1 by fastforce
  show "num div den < hi" if "num < hi * den"
  proof (rule ccontr)
    assume "\<not> num div den < hi"
    then have "hi \<le> num div den" by simp
    then have "hi * den \<le> num div den * den" using assms by (simp add: mult_right_mono)
    moreover have "num = num div den * den + num mod den" by simp
    moreover have "0 \<le> num mod den" using assms by simp
    ultimately show False using that by linarith
  qed
qed

lemma round_pos_scaled:
  assumes "0 < p" "0 < q"
  obtains k num den where
    "round_pos p q e = \<lparr> mant = nearest_even num den, expo = k + e \<rparr>"
    "0 < den"
    "real_of_int num / real_of_int den = real_of_int p / (real_of_int q * 2 powr real_of_int k)"
    "2 ^ 52 \<le> real_of_int num / real_of_int den"
    "real_of_int num / real_of_int den < 2 ^ 53"
proof -
  define k0 where "k0 = bitlen p - bitlen q - 53"
  define k where "k = (if 2 ^ 53 \<le> fst (scaled p q k0) div snd (scaled p q k0) then k0 + 1 else k0)"
  define y where "y j = real_of_int p / (real_of_int q * 2 powr real_of_int j)" for j
  have rp: "round_pos p q e =
      \<lparr> mant = nearest_even (fst (scaled p q k)) (snd (scaled p q k)), expo = k + e \<rparr>"
    by (simp add: round_pos_def Let_def k_def k0_def)
  have rq: "0 < real_of_int q" and rp0: "0 < real_of_int p" using assms by simp_all
  have ratio: "real_of_int (fst (scaled p q j)) / real_of_int (snd (scaled p q j)) = y j" for j
    unfolding y_def using assms(2) by (rule scaled_ratio(2))
  \<comment> \<open>the bit lengths bound the quotient\<close>
  define b1 where "b1 = bitlen p - 1"
  define c1 where "c1 = bitlen q - 1"
  have b1: "0 \<le> b1" using assms(1) by (simp add: b1_def bitlen_alt_def)
  have c1: "0 \<le> c1" using assms(2) by (simp add: c1_def bitlen_alt_def)
  have bp: "bitlen p = b1 + 1" and bq: "bitlen q = c1 + 1" by (simp_all add: b1_def c1_def)
  have b1': "0 \<le> b1 + 1" and c1': "0 \<le> c1 + 1" using b1 c1 by simp_all
  have pw: "(2::real) powr real_of_int j = 2 ^ nat j" if "0 \<le> j" for j
    using that by (simp add: two_powr_int)
  have "2 ^ nat b1 \<le> p" "p < 2 ^ nat (b1 + 1)"
    using bitlen_bounds [OF assms(1)] by (simp_all add: b1_def)
  then have "(2::real) ^ nat b1 \<le> real_of_int p" "real_of_int p < (2::real) ^ nat (b1 + 1)"
    by (metis of_int_le_iff of_int_numeral of_int_power, metis of_int_less_iff of_int_numeral of_int_power)
  note pr = this
  have plow: "2 powr real_of_int b1 \<le> real_of_int p"
    unfolding pw [OF b1] by (rule pr(1))
  have pup: "real_of_int p < 2 powr real_of_int (b1 + 1)"
    unfolding pw [OF b1'] by (rule pr(2))
  have "2 ^ nat c1 \<le> q" "q < 2 ^ nat (c1 + 1)"
    using bitlen_bounds [OF assms(2)] by (simp_all add: c1_def)
  then have "(2::real) ^ nat c1 \<le> real_of_int q" "real_of_int q < (2::real) ^ nat (c1 + 1)"
    by (metis of_int_le_iff of_int_numeral of_int_power, metis of_int_less_iff of_int_numeral of_int_power)
  note qr = this
  have qlow: "2 powr real_of_int c1 \<le> real_of_int q"
    unfolding pw [OF c1] by (rule qr(1))
  have qup: "real_of_int q < 2 powr real_of_int (c1 + 1)"
    unfolding pw [OF c1'] by (rule qr(2))
  define s where "s = (2::real) powr real_of_int k0"
  have spos: "0 < s" by (simp add: s_def)
  have e1: "2 powr real_of_int (c1 + 1) * s = 2 powr (real_of_int b1 - 52)"
    by (simp add: s_def powr_add [symmetric] k0_def bp bq)
  have e2: "2 powr real_of_int c1 * s = 2 powr (real_of_int b1 - 53)"
    by (simp add: s_def powr_add [symmetric] k0_def bp bq)
  have dpos: "0 < real_of_int q * s" using rq spos by simp
  have dup: "real_of_int q * s < 2 powr (real_of_int b1 - 52)"
    unfolding e1 [symmetric] using qup spos by simp
  have dlow: "2 powr (real_of_int b1 - 53) \<le> real_of_int q * s"
    unfolding e2 [symmetric] using qlow spos by simp
  have q52: "2 powr real_of_int b1 / 2 powr (real_of_int b1 - 52) = (2::real) ^ 52"
  proof -
    have "2 powr real_of_int b1 / 2 powr (real_of_int b1 - 52) = (2::real) powr 52"
      by (simp add: powr_diff [symmetric])
    then show ?thesis by (simp add: powr_numeral)
  qed
  have q54: "2 powr real_of_int (b1 + 1) / 2 powr (real_of_int b1 - 53) = (2::real) ^ 54"
  proof -
    have "2 powr real_of_int (b1 + 1) / 2 powr (real_of_int b1 - 53) = (2::real) powr 54"
      by (simp add: powr_diff [symmetric])
    then show ?thesis by (simp add: powr_numeral)
  qed
  have "(2::real) ^ 52 \<le> real_of_int p / 2 powr (real_of_int b1 - 52)"
    unfolding q52 [symmetric] using plow by (simp add: divide_right_mono)
  also have "\<dots> < real_of_int p / (real_of_int q * s)"
    using dup dpos rp0 by (simp add: divide_strict_left_mono)
  finally have y0: "2 ^ 52 < y k0" by (simp add: y_def s_def)
  have "real_of_int p / (real_of_int q * s) \<le> real_of_int p / 2 powr (real_of_int b1 - 53)"
    using dlow rp0 by (intro frac_le) simp_all
  also have "\<dots> < 2 powr real_of_int (b1 + 1) / 2 powr (real_of_int b1 - 53)"
    using pup by (simp add: divide_strict_right_mono)
  finally have "real_of_int p / (real_of_int q * s) < 2 ^ 54" unfolding q54 .
  then have y1: "y k0 < 2 ^ 54" by (simp add: y_def s_def)
  have fl: "real_of_int (fst (scaled p q k0) div snd (scaled p q k0)) = real_of_int \<lfloor>y k0\<rfloor>"
    unfolding ratio [of k0, symmetric] by (simp add: floor_divide_of_int_eq)
  have yk: "2 ^ 52 \<le> y k \<and> y k < 2 ^ 53"
  proof (cases "2 ^ 53 \<le> fst (scaled p q k0) div snd (scaled p q k0)")
    case True
    then have kk: "k = k0 + 1" by (simp add: k_def)
    from True have "(2::real) ^ 53 \<le> real_of_int (fst (scaled p q k0) div snd (scaled p q k0))"
      by (metis of_int_le_iff of_int_numeral of_int_power)
    then have "2 ^ 53 \<le> y k0" unfolding fl by linarith
    moreover have "y k = y k0 / 2"
      by (simp add: y_def kk powr_add)
    ultimately show ?thesis using y1 by simp
  next
    case False
    then have kk: "k = k0" by (simp add: k_def)
    from False have "fst (scaled p q k0) div snd (scaled p q k0) < 2 ^ 53" by simp
    then have "real_of_int (fst (scaled p q k0) div snd (scaled p q k0)) < (2::real) ^ 53"
      by (metis of_int_less_iff of_int_numeral of_int_power)
    then have "real_of_int \<lfloor>y k0\<rfloor> < (2::real) ^ 53" unfolding fl .
    then have "\<lfloor>y k0\<rfloor> < 2 ^ 53"
      by (metis of_int_less_iff of_int_numeral of_int_power)
    then have "y k0 < 2 ^ 53" by (simp add: floor_less_iff)
    with y0 kk show ?thesis by simp
  qed
  show thesis
  proof (rule that)
    show "round_pos p q e =
        \<lparr> mant = nearest_even (fst (scaled p q k)) (snd (scaled p q k)), expo = k + e \<rparr>"
      by (rule rp)
    show "0 < snd (scaled p q k)" using assms(2) by (rule scaled_ratio(1))
    show "real_of_int (fst (scaled p q k)) / real_of_int (snd (scaled p q k))
        = real_of_int p / (real_of_int q * 2 powr real_of_int k)"
      using ratio [of k] by (simp add: y_def)
    show "2 ^ 52 \<le> real_of_int (fst (scaled p q k)) / real_of_int (snd (scaled p q k))"
      unfolding ratio using yk by simp
    show "real_of_int (fst (scaled p q k)) / real_of_int (snd (scaled p q k)) < 2 ^ 53"
      unfolding ratio using yk by simp
  qed
qed

lemma round_pos_mantissa:
  assumes "0 < p" "0 < q"
  shows "2 ^ 52 \<le> mant (round_pos p q e)" and "mant (round_pos p q e) \<le> 2 ^ 53"
proof -
  from assms obtain k num den where h:
    "round_pos p q e = \<lparr> mant = nearest_even num den, expo = k + e \<rparr>"
    "0 < den"
    "2 ^ 52 \<le> real_of_int num / real_of_int den"
    "real_of_int num / real_of_int den < 2 ^ 53"
    by (rule round_pos_scaled [of p q e]) blast
  from h(2,3) have "real_of_int (2 ^ 52 * den) \<le> real_of_int num"
    by (simp add: pos_le_divide_eq)
  then have lo: "2 ^ 52 * den \<le> num" by (simp only: of_int_le_iff)
  from h(2,4) have "real_of_int num < real_of_int (2 ^ 53 * den)"
    by (simp add: pos_divide_less_eq)
  then have hi: "num < 2 ^ 53 * den" by (simp only: of_int_less_iff)
  have a: "2 ^ 52 \<le> num div den" using h(2) lo by (rule int_div_bounds(1))
  have "num div den < 2 ^ 53" using h(2) hi by (rule int_div_bounds(2))
  then have b: "num div den + 1 \<le> 2 ^ 53" by simp
  show "2 ^ 52 \<le> mant (round_pos p q e)"
    using a by (simp add: h(1) nearest_even_def Let_def)
  show "mant (round_pos p q e) \<le> 2 ^ 53"
    using a b by (simp add: h(1) nearest_even_def Let_def)
qed




subsection \<open>The regime label\<close>










text \<open>
  Some labels of the model: \<open>(1.8, 1.5)\<close> and \<open>(0.228, 0.19)\<close> are High, \<open>(0.16, 0.2)\<close> is
  Low, \<open>(0.108, 0.09)\<close> and \<open>(1.5, 1.5)\<close> are Normal.
\<close>

lemma regime_label_examples:
  "map (\<lambda>(v, b). regime_label v b)
     [(decimal 18 10, decimal 15 10), (decimal 228 1000, decimal 19 100),
      (decimal 16 100, decimal 2 10), (decimal 108 1000, decimal 9 100),
      (decimal 15 10, decimal 15 10)]
   = [High, High, Low, Normal, Normal]"
  by code_simp




section \<open>The change-point bar chart\<close>

lemma entry_cp_sorted_top:
  "map entry_cp (sorted_top cps) = take 10 (sort_key (\<lambda>cp. - probability cp) cps)"
proof -
  have "map entry_cp (map chart_entry_of (enumerate n xs)) = xs" for n and xs :: "change_point list"
    by (induction xs arbitrary: n) (simp_all add: chart_entry_of_def)
  then show ?thesis by (simp add: sorted_top_def)
qed

lemma take_sorted_dominates:
  fixes f :: "'a \<Rightarrow> real"
  assumes "s = sort_key f xs"
  shows "mset (take n s) \<subseteq># mset xs"
    and "sorted (map f (take n s))"
    and "\<forall>x \<in># mset xs - mset (take n s). \<forall>y \<in> set (take n s). f y \<le> f x"
proof -
  have ms: "mset xs = mset (take n s) + mset (drop n s)"
    by (metis append_take_drop_id assms mset_append mset_sort)
  then show "mset (take n s) \<subseteq># mset xs" by simp
  have srt: "sorted (map f s)" by (simp add: assms)
  then show "sorted (map f (take n s))"
    by (metis sorted_wrt_take take_map)
  from ms have rest: "mset xs - mset (take n s) = mset (drop n s)" by simp
  have "sorted (map f (take n s) @ map f (drop n s))"
    using srt by (metis append_take_drop_id map_append)
  then have "\<forall>y \<in> set (take n s). \<forall>x \<in> set (drop n s). f y \<le> f x"
    by (auto simp: sorted_append)
  with rest show "\<forall>x \<in># mset xs - mset (take n s). \<forall>y \<in> set (take n s). f y \<le> f x"
    by auto
qed

text \<open>
  C9, as the code has it: for a list that is not empty the chart shows
  \<open>min 10 (length cps)\<close> entries, they are change points of the list, in order of
  non-increasing probability, and no change point left out is more probable than one shown.
  For an empty or absent list the chart keeps what it showed before, so it never shows more
  than 10 entries.
\<close>

theorem chartData_effect_top10:
  "(cps \<noteq> [] \<longrightarrow>
      length (chartData_effect (Some cps) old) = min 10 (length cps)
      \<and> mset (map entry_cp (chartData_effect (Some cps) old)) \<subseteq># mset cps
      \<and> sorted_wrt (\<lambda>a b. probability a \<ge> probability b)
           (map entry_cp (chartData_effect (Some cps) old))
      \<and> (\<forall>x \<in># mset cps - mset (map entry_cp (chartData_effect (Some cps) old)).
           \<forall>y \<in> set (map entry_cp (chartData_effect (Some cps) old)).
             probability x \<le> probability y))
   \<and> chartData_effect (Some []) old = old
   \<and> chartData_effect None old = old
   \<and> (length old \<le> 10 \<longrightarrow> length (chartData_effect changePoints old) \<le> 10)"
proof (intro conjI impI)
  assume ne: "cps \<noteq> []"
  let ?s = "sort_key (\<lambda>cp. - probability cp) cps"
  have eff: "chartData_effect (Some cps) old = sorted_top cps"
    using ne by (simp add: chartData_effect_def)
  have shown: "map entry_cp (chartData_effect (Some cps) old) = take 10 ?s"
    by (simp add: eff entry_cp_sorted_top)
  show "length (chartData_effect (Some cps) old) = min 10 (length cps)"
    by (simp add: eff sorted_top_def min.commute)
  show "mset (map entry_cp (chartData_effect (Some cps) old)) \<subseteq># mset cps"
    unfolding shown by (rule take_sorted_dominates(1)) simp
  have "sorted (map (\<lambda>cp. - probability cp) (take 10 ?s))"
    by (rule take_sorted_dominates(2)) simp
  then show "sorted_wrt (\<lambda>a b. probability a \<ge> probability b)
      (map entry_cp (chartData_effect (Some cps) old))"
    unfolding shown by (simp add: sorted_map)
  have "\<forall>x \<in># mset cps - mset (take 10 ?s). \<forall>y \<in> set (take 10 ?s).
      - probability y \<le> - probability x"
    by (rule take_sorted_dominates(3)) simp
  then show "\<forall>x \<in># mset cps - mset (map entry_cp (chartData_effect (Some cps) old)).
      \<forall>y \<in> set (map entry_cp (chartData_effect (Some cps) old)). probability x \<le> probability y"
    unfolding shown by simp
next
  show "chartData_effect (Some []) old = old" by (simp add: chartData_effect_def)
  show "chartData_effect None old = old" by (simp add: chartData_effect_def)
next
  assume "length old \<le> 10"
  then show "length (chartData_effect changePoints old) \<le> 10"
    by (auto simp: chartData_effect_def sorted_top_def split: option.splits)
qed

theorem chartData_effect_top10_witness:
  "map (\<lambda>e. (change_point.date (entry_cp e), index e))
     (chartData_effect (Some [change_point_on 1 0.6, change_point_on 2 0.9, change_point_on 3 0.7])
        chartData_initial) = [(2, 1), (3, 2), (1, 3)]
   \<and> length (chartData_effect (Some (map (\<lambda>d. change_point_on d 0.9) [1..12])) chartData_initial) = 10
   \<and> length chartData_initial \<le> 10"
  using chartData_effect_top10 [of "[change_point_on 1 0.6, change_point_on 2 0.9, change_point_on 3 0.7]"
      chartData_initial None]
    chartData_effect_top10 [of "map (\<lambda>d. change_point_on d 0.9) [1..12]" chartData_initial None]
  by (simp add: chartData_effect_def sorted_top_def chart_entry_of_def change_point_on_def
      chartData_initial_def enumerate_eq_zip)

text \<open>
  C9 as stated fails for the empty list: after a list with one change point, the empty list
  leaves that change point on the chart.
\<close>

theorem chartData_effect_stale_counterexample:
  "map entry_cp (chartData_effect (Some [])
      (chartData_effect (Some [change_point_on 3 0.9]) chartData_initial))
     = [change_point_on 3 0.9]"
  by (simp add: chartData_effect_def sorted_top_def chart_entry_of_def)

section \<open>Log returns\<close>

lemma length_log_returns: "length (log_returns ps) = length ps - 1"
  by (induction ps rule: log_returns.induct) simp_all

lemma nth_log_returns:
  "i < length ps - 1 \<Longrightarrow>
     log_return (log_returns ps ! i) = ln (price (ps ! (i + 1)) / price (ps ! i))"
proof (induction ps arbitrary: i rule: log_returns.induct)
  case (1 p q rest)
  then show ?case by (cases i) simp_all
qed simp_all

text \<open>
  C6: for a valid price series the preprocessor returns a return series with one element
  fewer than the prices, and the return at index \<open>i\<close> is
  \<open>ln (prices[i+1] / prices[i])\<close>.
\<close>

theorem preprocess_log_returns:
  assumes "valid_series ps"
  shows "\<exists>rs. preprocess ps = Inr rs \<and> length rs = length ps - 1 \<and>
           (\<forall>i < length rs. log_return (rs ! i) = ln (price (ps ! (i + 1)) / price (ps ! i)))"
  using assms by (simp add: preprocess_def length_log_returns nth_log_returns)

theorem preprocess_log_returns_witness:
  "preprocess [\<lparr> price_observation.date = 0, price = 50 \<rparr>,
               \<lparr> price_observation.date = 1, price = 55 \<rparr>,
               \<lparr> price_observation.date = 4, price = 44 \<rparr>]
     = Inr [\<lparr> return_observation.date = 1, log_return = ln (55 / 50) \<rparr>,
            \<lparr> return_observation.date = 4, log_return = ln (44 / 55) \<rparr>]"
  using preprocess_log_returns [of "[\<lparr> price_observation.date = 0, price = 50 \<rparr>,
               \<lparr> price_observation.date = 1, price = 55 \<rparr>,
               \<lparr> price_observation.date = 4, price = 44 \<rparr>]"]
  by (simp add: preprocess_def valid_series_def)

section \<open>Non-maximum suppression\<close>

lemma apart_commute: "apart sep a b \<Longrightarrow> apart sep b a"
  unfolding apart_def by (cases "fst a \<le> fst b"; cases "fst b \<le> fst a") auto

lemma set_suppress: "set (suppress sep kept cs) \<subseteq> set kept \<union> set cs"
proof (induction cs arbitrary: kept)
  case Nil
  then show ?case by simp
next
  case (Cons c cs)
  have "set (suppress sep (kept @ [c]) cs) \<subseteq> set (kept @ [c]) \<union> set cs"
    by (rule Cons.IH)
  moreover have "set (suppress sep kept cs) \<subseteq> set kept \<union> set cs"
    by (rule Cons.IH)
  ultimately show ?case by auto
qed

lemma pairwise_suppress:
  "pairwise (apart sep) (set kept) \<Longrightarrow> pairwise (apart sep) (set (suppress sep kept cs))"
proof (induction cs arbitrary: kept)
  case Nil
  then show ?case by simp
next
  case (Cons c cs)
  show ?case
  proof (cases "list_all (\<lambda>k. apart sep k c) kept")
    case True
    then have "\<forall>k \<in> set kept. apart sep k c \<and> apart sep c k"
      by (auto simp: list_all_iff intro: apart_commute)
    with Cons.prems have "pairwise (apart sep) (set (kept @ [c]))"
      by (simp add: pairwise_insert)
    then have "pairwise (apart sep) (set (suppress sep (kept @ [c]) cs))"
      by (rule Cons.IH)
    with True show ?thesis by simp
  next
    case False
    with Cons.IH [OF Cons.prems] show ?thesis by simp
  qed
qed

lemma distinct_suppress:
  "distinct (map fst (kept @ cs)) \<Longrightarrow> distinct (map fst (suppress sep kept cs))"
proof (induction cs arbitrary: kept)
  case Nil
  then show ?case by simp
next
  case (Cons c cs)
  from Cons.prems have a: "distinct (map fst ((kept @ [c]) @ cs))" by auto
  from Cons.prems have b: "distinct (map fst (kept @ cs))" by auto
  show ?case
    using Cons.IH [OF a] Cons.IH [OF b] by simp
qed

lemma suppress_keeps_all:
  "distinct (kept @ cs) \<Longrightarrow> pairwise (apart sep) (set (kept @ cs)) \<Longrightarrow>
     suppress sep kept cs = kept @ cs"
proof (induction cs arbitrary: kept)
  case Nil
  then show ?case by simp
next
  case (Cons c cs)
  have "apart sep k c" if "k \<in> set kept" for k
  proof -
    from that Cons.prems(1) have "k \<noteq> c" by auto
    moreover have "k \<in> set (kept @ c # cs)" "c \<in> set (kept @ c # cs)" using that by simp_all
    ultimately show ?thesis using Cons.prems(2) by (meson pairwiseD)
  qed
  then have all: "list_all (\<lambda>k. apart sep k c) kept" by (simp add: list_all_iff)
  from Cons.prems have "distinct ((kept @ [c]) @ cs)" "pairwise (apart sep) (set ((kept @ [c]) @ cs))"
    by simp_all
  then have "suppress sep (kept @ [c]) cs = (kept @ [c]) @ cs" by (rule Cons.IH)
  with all show ?case by simp
qed

lemma filter_key_single:
  "distinct (map f zs) \<Longrightarrow> k \<in> set zs \<Longrightarrow> filter (\<lambda>x. f k = f x) zs = [k]"
proof (induction zs)
  case Nil
  then show ?case by simp
next
  case (Cons z zs)
  show ?case
  proof (cases "k = z")
    case True
    from Cons.prems(1) have "\<forall>x \<in> set zs. f z \<noteq> f x" by auto
    then have "filter (\<lambda>x. f z = f x) zs = []" by (simp add: filter_empty_conv)
    with True show ?thesis by simp
  next
    case False
    with Cons.prems have k: "k \<in> set zs" and d: "distinct (map f zs)" by simp_all
    from Cons.prems(1) have "f z \<notin> f ` set zs" by simp
    with k have "f k \<noteq> f z" by (metis imageI)
    with Cons.IH [OF d k] show ?thesis by simp
  qed
qed

lemma distinct_map_mset:
  assumes "mset xs = mset ys" "distinct (map f ys)"
  shows "distinct (map f xs)"
proof -
  have "mset (map f xs) = mset (map f ys)" using assms(1) by simp
  then show ?thesis using assms(2) mset_eq_imp_distinct_iff by blast
qed

lemma sort_key_mset_cong:
  assumes "mset xs = mset ys" "distinct (map f ys)"
  shows "sort_key f xs = sort_key f ys"
proof (rule properties_for_sort_key)
  show "mset (sort_key f ys) = mset xs" using assms(1) by simp
  show "sorted (map f (sort_key f ys))" by simp
  fix k assume k: "k \<in> set (sort_key f ys)"
  have dx: "distinct (map f xs)" using assms by (rule distinct_map_mset)
  have ds: "distinct (map f (sort_key f ys))"
    using _ assms(2) by (rule distinct_map_mset) simp
  have "set xs = set ys" using assms(1) by (rule mset_eq_setD)
  with k have kx: "k \<in> set xs" by simp
  show "filter (\<lambda>x. f k = f x) (sort_key f ys) = filter (\<lambda>x. f k = f x) xs"
    by (simp only: filter_key_single [OF ds k] filter_key_single [OF dx kx])
qed

lemma nms_of_separated:
  assumes "mset xs = mset ys" "distinct (map fst ys)" "pairwise (apart sep) (set ys)"
  shows "nms sep xs = sort_key fst ys"
proof -
  let ?s = "sort_key (\<lambda>c. - snd c) xs"
  have ms: "mset ?s = mset ys" using assms(1) by simp
  then have "distinct (map fst ?s)" using assms(2) by (rule distinct_map_mset)
  then have ds: "distinct ?s" by (simp add: distinct_map)
  have "set ?s = set ys" using ms by (rule mset_eq_setD)
  with assms(3) have "pairwise (apart sep) (set ?s)" by simp
  with ds have "suppress sep [] ?s = [] @ ?s"
    by (intro suppress_keeps_all) simp_all
  then have "nms sep xs = sort_key fst ?s" by (simp add: nms_def)
  also have "\<dots> = sort_key fst ys" using ms assms(2) by (rule sort_key_mset_cong)
  finally show ?thesis .
qed

lemma nms_output:
  assumes "distinct (map fst cs)"
  shows "distinct (map fst (nms sep cs))" and "pairwise (apart sep) (set (nms sep cs))"
    and "sorted (map fst (nms sep cs))" and "set (nms sep cs) \<subseteq> set cs"
proof -
  let ?s = "sort_key (\<lambda>c. - snd c) cs"
  let ?k = "suppress sep [] ?s"
  have "mset ?s = mset cs" by simp
  then have "distinct (map fst ?s)" using assms by (rule distinct_map_mset)
  then have "distinct (map fst ([] @ ?s))" by simp
  then have dk: "distinct (map fst ?k)" by (rule distinct_suppress)
  have "pairwise (apart sep) (set [])" by simp
  then have sk: "pairwise (apart sep) (set ?k)" by (rule pairwise_suppress)
  have ms: "mset (nms sep cs) = mset ?k" by (simp add: nms_def)
  then show "distinct (map fst (nms sep cs))" using dk by (rule distinct_map_mset)
  have st: "set (nms sep cs) = set ?k" by (simp add: nms_def)
  with sk show "pairwise (apart sep) (set (nms sep cs))" by simp
  show "sorted (map fst (nms sep cs))" by (simp add: nms_def)
  have "set ?k \<subseteq> set [] \<union> set ?s" by (rule set_suppress)
  with st show "set (nms sep cs) \<subseteq> set cs" by simp
qed

lemma set_candidates:
  "set (candidates thr v) = {(i, p). i < length v \<and> p = v ! i \<and> thr < p}"
  unfolding candidates_def by (auto simp: in_set_enumerate_eq)

lemma distinct_candidates: "distinct (map fst (candidates thr v))"
proof -
  have "distinct (map fst (enumerate 0 v))" by simp
  then show ?thesis unfolding candidates_def by (rule distinct_map_filter)
qed

lemma candidates_as_posterior:
  assumes "0 \<le> thr" "distinct (map fst out)"
    and "\<And>i p. (i, p) \<in> set out \<Longrightarrow> i < n \<and> thr < p"
  shows "set (candidates thr (as_posterior n out)) = set out"
proof -
  have look: "map_of out i = Some p \<longleftrightarrow> (i, p) \<in> set out" for i p
    using assms(2) by simp
  have len: "length (as_posterior n out) = n" by (simp add: as_posterior_def)
  have nth: "as_posterior n out ! i = (case map_of out i of Some q \<Rightarrow> q | None \<Rightarrow> 0)"
    if "i < n" for i
    using that by (simp add: as_posterior_def)
  show ?thesis
  proof (intro set_eqI iffI)
    fix c assume "c \<in> set (candidates thr (as_posterior n out))"
    then obtain i p where c: "c = (i, p)" "i < n" "p = as_posterior n out ! i" "thr < p"
      unfolding set_candidates len by blast
    from c(2,3) have p: "p = (case map_of out i of Some q \<Rightarrow> q | None \<Rightarrow> 0)"
      by (simp add: nth)
    have "map_of out i \<noteq> None"
    proof
      assume "map_of out i = None"
      with p have "p = 0" by simp
      with c(4) assms(1) show False by simp
    qed
    then obtain q where q: "map_of out i = Some q" by blast
    with p have "p = q" by simp
    with q look c(1) show "c \<in> set out" by simp
  next
    fix c assume m: "c \<in> set out"
    obtain i p where c: "c = (i, p)" by (cases c)
    with m assms(3) have b: "i < n" "thr < p" by blast+
    from m c look have "map_of out i = Some p" by simp
    with b(1) have "as_posterior n out ! i = p" by (simp add: nth)
    with b c show "c \<in> set (candidates thr (as_posterior n out))"
      unfolding set_candidates len by simp
  qed
qed

text \<open>
  C7: non-maximum suppression is idempotent. Suppressing the emitted change points again
  gives the same change points, and so does summarizing the posterior vector read back from
  them (for a threshold that is not negative, so that the indices without a change point
  are no candidates).
\<close>

theorem summarize_idempotent:
  "(distinct (map fst cs) \<longrightarrow> nms sep (nms sep cs) = nms sep cs)
   \<and> (0 \<le> threshold \<longrightarrow>
        summarize threshold sep
          (as_posterior (length posterior) (summarize threshold sep posterior))
        = summarize threshold sep posterior)"
proof (intro conjI impI)
  assume d: "distinct (map fst cs)"
  have "nms sep (nms sep cs) = sort_key fst (nms sep cs)"
    using refl nms_output(1,2) [OF d] by (rule nms_of_separated)
  also have "\<dots> = nms sep cs"
    using nms_output(3) [OF d] by (rule sort_key_id_if_sorted)
  finally show "nms sep (nms sep cs) = nms sep cs" .
next
  assume t: "0 \<le> threshold"
  let ?out = "summarize threshold sep posterior"
  let ?c2 = "candidates threshold (as_posterior (length posterior) ?out)"
  have d: "distinct (map fst (candidates threshold posterior))"
    by (rule distinct_candidates)
  have out1: "distinct (map fst ?out)"
    unfolding summarize_def using d by (rule nms_output(1))
  have out2: "pairwise (apart sep) (set ?out)"
    unfolding summarize_def using d by (rule nms_output(2))
  have out3: "sorted (map fst ?out)"
    unfolding summarize_def using d by (rule nms_output(3))
  have out4: "set ?out \<subseteq> set (candidates threshold posterior)"
    unfolding summarize_def using d by (rule nms_output(4))
  have bound: "i < length posterior \<and> threshold < p" if "(i, p) \<in> set ?out" for i p
    using that out4 unfolding set_candidates by blast
  have "set ?c2 = set ?out"
    using t out1 bound by (rule candidates_as_posterior)
  moreover have "distinct ?c2"
    using distinct_candidates [of threshold "as_posterior (length posterior) ?out"]
    by (simp add: distinct_map)
  moreover have "distinct ?out"
    using out1 by (simp add: distinct_map)
  ultimately have "mset ?c2 = mset ?out"
    by (simp add: set_eq_iff_mset_eq_distinct)
  then have "nms sep ?c2 = sort_key fst ?out"
    using out1 out2 by (rule nms_of_separated)
  also have "\<dots> = ?out" using out3 by (rule sort_key_id_if_sorted)
  finally show "summarize threshold sep (as_posterior (length posterior) ?out) = ?out"
    by (simp add: summarize_def)
qed

theorem summarize_idempotent_witness:
  "nms 2 (nms 2 [(1, 0.6), (2, 0.9), (3, 0.7), (5, 0.8)]) = [(2, 0.9), (5, 0.8)]
   \<and> summarize 0.5 2 (as_posterior 6 (summarize 0.5 2 [0.1, 0.6, 0.9, 0.7, 0.2, 0.8]))
       = [(2, 0.9), (5, 0.8)]"
proof -
  let ?cs = "[(1, 0.6), (2, 0.9), (3, 0.7), (5, 0.8)] :: (nat \<times> real) list"
  let ?v = "[0.1, 0.6, 0.9, 0.7, 0.2, 0.8] :: real list"
  have e1: "nms 2 ?cs = [(2, 0.9), (5, 0.8)]"
    by (simp add: nms_def apart_def)
  have e2: "summarize 0.5 2 ?v = [(2, 0.9), (5, 0.8)]"
    by (simp add: summarize_def nms_def candidates_def apart_def enumerate_eq_zip)
  have len: "length ?v = 6" by simp
  have d: "distinct (map fst ?cs)" by simp
  have t: "(0::real) \<le> 0.5" by simp
  from summarize_idempotent [of ?cs 2 "0.5" ?v] d t
  have "nms 2 (nms 2 ?cs) = nms 2 ?cs
      \<and> summarize 0.5 2 (as_posterior (length ?v) (summarize 0.5 2 ?v)) = summarize 0.5 2 ?v"
    by blast
  then show ?thesis by (simp only: e1 e2 len)
qed

end
